theory Spec2Isabelle
  imports Complex_Main "HOL-Library.Word"
begin

unbundle bit_operations_syntax

text \<open>
  A model of the feed server (\<^verbatim>\<open>generatePostsRange\<close>, the recent window, \<^verbatim>\<open>/api/track\<close>) and of
  \<^verbatim>\<open>recommender.js\<close> (feature synthesis, \<^verbatim>\<open>kmeans\<close>, \<^verbatim>\<open>recommend\<close>). Conventions:
  JavaScript numbers that hold counts and indices are natural numbers, the 32-bit values of the
  generator are words, and all other numbers are reals, so arithmetic is exact and there is no
  \<open>NaN\<close>; strings are byte strings; an object used as a dictionary is a finite map, or a list
  of entries where the order of its keys matters.
\<close>

section \<open>Pseudo-random generator (mulberry32)\<close>

text \<open>
  \<^verbatim>\<open>mulberry32(a)\<close> returns a closure over the mutable number \<open>a\<close>. Every operation on
  \<open>a\<close> and \<open>t\<close> in its body goes through a 32-bit conversion (\<open>^\<close>, \<open>|\<close>, \<open>>>>\<close>,
  \<open>Math.imul\<close>), so the closure state is a 32-bit word. One call maps the state to the
  new state and the 32-bit numerator \<open>w\<close> of the result \<open>w / 4294967296\<close>.
\<close>

definition mulberry32 :: "32 word \<Rightarrow> 32 word \<times> 32 word" where
  "mulberry32 a =
     (let a' = a + 0x6D2B79F5;
          t1 = (a' XOR drop_bit 15 a') * (a' OR 1);
          t2 = t1 XOR (t1 + (t1 XOR drop_bit 7 t1) * (t1 OR 61))
      in (a', t2 XOR drop_bit 14 t2))"

text \<open>
  \<^verbatim>\<open>Math.floor(rnd() * n)\<close> for the draw \<open>w / 2^32\<close>: the product is exact in double
  precision for every list length below \<open>2^21\<close>, so the floor is the integer quotient.
\<close>

definition scale :: "32 word \<Rightarrow> nat \<Rightarrow> nat" where
  "scale w n = (unat w * n) div 4294967296"

section \<open>Post descriptors\<close>

record post =
  videoUrl :: string
  thumbnailUrl :: string
  user :: string
  caption :: string
  song :: string

definition unreserved :: "char \<Rightarrow> bool" where
  "unreserved c =
     (let n = (of_char c :: nat)
      in (97 \<le> n \<and> n \<le> 122) \<or> (65 \<le> n \<and> n \<le> 90) \<or> (48 \<le> n \<and> n \<le> 57) \<or>
         n \<in> {45, 95, 46, 33, 126, 42, 39, 40, 41})"

definition hexdigit :: "nat \<Rightarrow> char" where
  "hexdigit n = (''0123456789ABCDEF'') ! (n mod 16)"

text \<open>\<^verbatim>\<open>encodeURIComponent\<close> on a UTF-8 byte string: every byte that is not unreserved
  becomes \<open>%XX\<close>.\<close>

definition encodeURIComponent :: "string \<Rightarrow> string" where
  "encodeURIComponent s =
     concat (map (\<lambda>c. if unreserved c then [c]
                       else [CHR ''%'', hexdigit (of_char c div 16), hexdigit (of_char c)]) s)"

text \<open>\<^verbatim>\<open>file.replace(/\.[^/.]+$/, '')\<close>: a final dot followed by at least one character,
  none of them a dot or a slash, is removed together with what follows it.\<close>

definition stripExt :: "string \<Rightarrow> string" where
  "stripExt f =
     (let ext = rev (takeWhile (\<lambda>c. c \<noteq> CHR ''.'') (rev f))
      in if length ext < length f \<and> ext \<noteq> [] \<and> CHR ''/'' \<notin> set ext
         then take (length f - length ext - 1) f else f)"

definition mkPost :: "string \<Rightarrow> string \<Rightarrow> post" where
  "mkPost cat file =
     \<lparr> videoUrl = ''/videos/'' @ encodeURIComponent cat @ ''/'' @ encodeURIComponent file,
       thumbnailUrl = ''/videos/'' @ encodeURIComponent cat @ ''/''
                        @ encodeURIComponent (stripExt file @ ''.webp''),
       user = cat, caption = file, song = '''' \<rparr>"

definition mkKey :: "string \<Rightarrow> string \<Rightarrow> string" where
  "mkKey cat file = cat @ ''/'' @ file"

definition postKey :: "post \<Rightarrow> string" where
  "postKey p = mkKey (user p) (caption p)"

section \<open>Recent window\<close>

definition RECENT_LIMIT :: nat where
  "RECENT_LIMIT = 50"

record recent =
  recentQueue :: "string list"
  recentSet :: "string set"

definition emptyRecent :: recent where
  "emptyRecent = \<lparr> recentQueue = [], recentSet = {} \<rparr>"

text \<open>\<^verbatim>\<open>while (recentQueue.length > RECENT_LIMIT) { old = recentQueue.shift(); recentSet.delete(old) }\<close>\<close>

function evict :: "recent \<Rightarrow> recent" where
  "evict st =
     (if length (recentQueue st) > RECENT_LIMIT
      then (case recentQueue st of
              [] \<Rightarrow> st
            | old # rest \<Rightarrow> evict (st\<lparr> recentQueue := rest, recentSet := recentSet st - {old} \<rparr>))
      else st)"
  by pat_completeness auto
termination
  by (relation "measure (\<lambda>st. length (recentQueue st))") auto

declare evict.simps [simp del]

text \<open>The three statements after an accepted draw: push, evict, add.\<close>

definition pushRecent :: "string \<Rightarrow> recent \<Rightarrow> recent" where
  "pushRecent key st =
     (let st1 = st\<lparr> recentQueue := recentQueue st @ [key] \<rparr>;
          st2 = evict st1
      in st2\<lparr> recentSet := insert key (recentSet st2) \<rparr>)"

text \<open>\<^verbatim>\<open>q.slice(-RECENT_LIMIT)\<close>\<close>

definition sliceLast :: "nat \<Rightarrow> 'a list \<Rightarrow> 'a list" where
  "sliceLast n q = drop (length q - n) q"

text \<open>\<^verbatim>\<open>saveRecent\<close> writes \<open>{queue: recentQueue.slice(-RECENT_LIMIT)}\<close>; the model keeps
  the array that is written.\<close>

definition saveRecent :: "recent \<Rightarrow> string list" where
  "saveRecent st = sliceLast RECENT_LIMIT (recentQueue st)"

text \<open>The recent-file part of \<^verbatim>\<open>loadPersistent\<close>. \<open>None\<close> is a file that is missing or
  does not parse (the \<^verbatim>\<open>catch\<close> leaves the state as it is); \<open>Some q\<close> is the parsed
  \<open>queue\<close> array (\<open>[]\<close> when the field is not an array).\<close>

definition loadPersistent :: "string list option \<Rightarrow> recent \<Rightarrow> recent" where
  "loadPersistent f st =
     (case f of
        None \<Rightarrow> st
      | Some q \<Rightarrow> (let rq = sliceLast RECENT_LIMIT q
                   in \<lparr> recentQueue = rq, recentSet = set rq \<rparr>))"

section \<open>Feed sampler\<close>

text \<open>One loop iteration's draw for absolute position \<open>i\<close> with the (already incremented)
  attempt counter: the seed, the category, and, when the category has files, the file.\<close>

definition attemptSeed :: "nat \<Rightarrow> nat \<Rightarrow> nat \<Rightarrow> 32 word" where
  "attemptSeed GLOBAL_SEED i attempts = of_nat (GLOBAL_SEED + i div 2 + attempts)"

definition pickFile :: "string list \<Rightarrow> nat \<Rightarrow> nat \<Rightarrow> string" where
  "pickFile files start i = files ! ((start + i mod 2) mod length files)"

definition draw ::
  "nat \<Rightarrow> string list \<Rightarrow> (string \<rightharpoonup> string list) \<Rightarrow> nat \<Rightarrow> nat \<Rightarrow> (string \<times> string) option"
where
  "draw GLOBAL_SEED categories fileMap i attempts =
     (let (a1, r1) = mulberry32 (attemptSeed GLOBAL_SEED i attempts);
          cat = categories ! scale r1 (length categories)
      in case fileMap cat of
           None \<Rightarrow> None
         | Some files \<Rightarrow>
             if files = [] then None
             else let (a2, r2) = mulberry32 a1;
                      start = scale r2 (length files)
                  in Some (cat, pickFile files start i))"

text \<open>The \<^verbatim>\<open>while\<close> loop of \<^verbatim>\<open>generatePostsRange\<close>; it returns its local variables
  \<open>attempts\<close> and \<open>out\<close> and the recent window as they are when the loop exits.\<close>

function sampleLoop ::
  "nat \<Rightarrow> string list \<Rightarrow> (string \<rightharpoonup> string list) \<Rightarrow> nat \<Rightarrow> nat \<Rightarrow> nat \<Rightarrow> post list \<Rightarrow> recent
     \<Rightarrow> nat \<times> post list \<times> recent"
where
  "sampleLoop G categories fileMap offset limit attempts out st =
     (if length out < limit \<and> attempts < limit * 10
      then (let attempts' = attempts + 1;
                i = offset + length out
            in case draw G categories fileMap i attempts' of
                 None \<Rightarrow> sampleLoop G categories fileMap offset limit attempts' out st
               | Some (cat, file) \<Rightarrow>
                   if mkKey cat file \<in> recentSet st
                   then sampleLoop G categories fileMap offset limit attempts' out st
                   else sampleLoop G categories fileMap offset limit attempts'
                          (out @ [mkPost cat file]) (pushRecent (mkKey cat file) st))
      else (attempts, out, st))"
  by pat_completeness auto
termination
  by (relation "measure (\<lambda>(G, cs, fm, offset, limit, attempts, out, st). limit * 10 - attempts)")
     auto

declare sampleLoop.simps [simp del]

definition generatePostsRange ::
  "nat \<Rightarrow> string list \<Rightarrow> (string \<rightharpoonup> string list) \<Rightarrow> nat \<Rightarrow> nat \<Rightarrow> recent \<Rightarrow> post list \<times> recent"
where
  "generatePostsRange G categories fileMap offset limit st =
     (if categories = [] then ([], st)
      else (let (attempts, out, st') = sampleLoop G categories fileMap offset limit 0 [] st
            in (out, st')))"

text \<open>The recent window as the sampler keeps it: bounded, without repetition, and with the
  set mirroring the queue.\<close>

definition windowInv :: "recent \<Rightarrow> bool" where
  "windowInv st \<longleftrightarrow>
     length (recentQueue st) \<le> RECENT_LIMIT \<and> distinct (recentQueue st) \<and>
     recentSet st = set (recentQueue st)"

text \<open>The keys the catalog can produce: \<open>cat/file\<close> for every listed category and every
  file of its list.\<close>

definition catalogKeys :: "string list \<Rightarrow> (string \<rightharpoonup> string list) \<Rightarrow> string set" where
  "catalogKeys cs fm = {mkKey c f | c f files. c \<in> set cs \<and> fm c = Some files \<and> f \<in> set files}"

text \<open>
  The states the server can be in. The first component is the in-memory window, the second
  the content of the recent file (\<open>None\<close> while there is none). A process starts with an
  empty window and runs \<^verbatim>\<open>loadPersistent\<close>; afterwards the window changes only in
  \<^verbatim>\<open>generatePostsRange\<close>, and the file is only written by \<^verbatim>\<open>saveRecent\<close> (and by the
  \<^verbatim>\<open>SIGINT\<close> handler, which writes the same array).
\<close>

inductive reachable :: "recent \<times> string list option \<Rightarrow> bool" where
  start: "reachable (emptyRecent, None)"
| sample: "reachable (st, f) \<Longrightarrow>
           reachable (snd (generatePostsRange G categories fileMap offset limit st), f)"
| save: "reachable (st, f) \<Longrightarrow> reachable (st, Some (saveRecent st))"
| restart: "reachable (st, f) \<Longrightarrow> reachable (loadPersistent f emptyRecent, f)"

section \<open>Behaviour tracking (\<^verbatim>\<open>POST /api/track\<close>)\<close>








section \<open>Feature synthesis (\<^verbatim>\<open>recommender.js\<close>)\<close>

text \<open>
  \<^verbatim>\<open>hashToSeed\<close> reads the first four bytes of an MD5 digest (Node's \<^verbatim>\<open>crypto\<close>). The digest
  is computed outside this repository; every definition that needs it takes the function
  \<open>hashToSeed :: string \<Rightarrow> 32 word\<close> as its first argument. Numbers are reals: the model
  has exact arithmetic where JavaScript rounds to double precision.
\<close>

definition toLowerChar :: "char \<Rightarrow> char" where
  "toLowerChar c =
     (let n = (of_char c :: nat) in if 65 \<le> n \<and> n \<le> 90 then char_of (n + 32) else c)"

definition isSpaceChar :: "char \<Rightarrow> bool" where
  "isSpaceChar c \<longleftrightarrow> (of_char c :: nat) \<in> {32, 9, 10, 11, 12, 13}"

definition isLowerAlnum :: "char \<Rightarrow> bool" where
  "isLowerAlnum c \<longleftrightarrow>
     (let n = (of_char c :: nat) in (97 \<le> n \<and> n \<le> 122) \<or> (48 \<le> n \<and> n \<le> 57))"

text \<open>\<^verbatim>\<open>toLowerCase\<close> is modelled on the ASCII letters; a byte outside ASCII is neither a
  letter nor a digit, so \<^verbatim>\<open>tokenize\<close> turns it into a separator.\<close>

text \<open>\<^verbatim>\<open>s.split(/\s+/)\<close> followed by \<^verbatim>\<open>.filter(Boolean)\<close>: the maximal runs of characters that
  are not white space. The first argument is the run being read.\<close>

fun splitSpaces :: "string \<Rightarrow> string \<Rightarrow> string list" where
  "splitSpaces cur [] = (if cur = [] then [] else [cur])"
| "splitSpaces cur (c # cs) =
     (if isSpaceChar c then (if cur = [] then splitSpaces [] cs else cur # splitSpaces [] cs)
      else splitSpaces (cur @ [c]) cs)"

definition tokenize :: "string \<Rightarrow> string list" where
  "tokenize name =
     splitSpaces []
       (map (\<lambda>c. if isLowerAlnum c \<or> isSpaceChar c then c else CHR '' '')
          (map toLowerChar name))"

definition textVector :: "(string \<Rightarrow> 32 word) \<Rightarrow> string \<Rightarrow> nat \<Rightarrow> real list" where
  "textVector hashToSeed name sz =
     fold (\<lambda>t vec. let seed = hashToSeed t;
                        idx = scale (snd (mulberry32 seed)) sz
                    in vec[idx := vec ! idx + 1])
          (tokenize name) (replicate sz 0)"

text \<open>\<^verbatim>\<open>for (i = 0; i < len; i++) out.push(rnd())\<close> on the generator state \<open>a\<close>.\<close>

fun randomFloats :: "32 word \<Rightarrow> nat \<Rightarrow> real list" where
  "randomFloats a 0 = []"
| "randomFloats a (Suc n) =
     (let (a', w) = mulberry32 a in (real (unat w) / 4294967296) # randomFloats a' n)"

definition deterministicRandomVector :: "(string \<Rightarrow> 32 word) \<Rightarrow> string \<Rightarrow> nat \<Rightarrow> real list" where
  "deterministicRandomVector hashToSeed key len = randomFloats (hashToSeed key) len"

text \<open>\<^verbatim>\<open>v[j] || 0\<close>: an index past the end reads \<open>undefined\<close>, which counts as 0.\<close>

definition nth0 :: "real list \<Rightarrow> nat \<Rightarrow> real" where
  "nth0 v j = (if j < length v then v ! j else 0)"

text \<open>\<^verbatim>\<open>v.reduce((s, x) => s + (x||0)*(x||0), 0)\<close>\<close>

definition sqnorm :: "real list \<Rightarrow> real" where
  "sqnorm v = fold (\<lambda>x s. s + x * x) v 0"

text \<open>\<^verbatim>\<open>x || 1\<close> on a number.\<close>

definition orOne :: "real \<Rightarrow> real" where
  "orOne x = (if x = 0 then 1 else x)"

text \<open>The part of \<^verbatim>\<open>buildIndex\<close> that makes one feature: the raw concatenation and its
  normalisation.\<close>

definition rawFeature :: "(string \<Rightarrow> 32 word) \<Rightarrow> string \<Rightarrow> string \<Rightarrow> real list" where
  "rawFeature hashToSeed key file =
     (let t = textVector hashToSeed file 64;
          a = deterministicRandomVector hashToSeed (key @ '':a'') 8;
          v = deterministicRandomVector hashToSeed (key @ '':v'') 8
      in t @ a @ v)"

definition normalize :: "real list \<Rightarrow> real list" where
  "normalize feature = (let norm = orOne (sqrt (sqnorm feature)) in map (\<lambda>x. x / norm) feature)"

definition synthesize :: "(string \<Rightarrow> 32 word) \<Rightarrow> string \<Rightarrow> string \<Rightarrow> real list" where
  "synthesize hashToSeed key file = normalize (rawFeature hashToSeed key file)"

section \<open>The index\<close>

record item =
  it_key :: string
  it_category :: string
  it_file :: string
  it_feature :: "real list"

text \<open>The two nested loops of \<^verbatim>\<open>buildIndex\<close> over the file map, an object whose own keys are
  enumerated in order: a list of categories with their file lists.\<close>

definition indexOf :: "(string \<Rightarrow> 32 word) \<Rightarrow> (string \<times> string list) list \<Rightarrow> item list" where
  "indexOf hashToSeed fileMap =
     concat (map (\<lambda>(cat, files).
        map (\<lambda>f. \<lparr> it_key = mkKey cat f, it_category = cat, it_file = f,
                    it_feature = synthesize hashToSeed (mkKey cat f) f \<rparr>) files) fileMap)"

text \<open>\<^verbatim>\<open>this.index.forEach((it, i) => { this.keyToIndex[it.key] = i })\<close>: a later item with the
  same key overwrites the earlier entry.\<close>

definition keyToIndexOf :: "item list \<Rightarrow> (string \<rightharpoonup> nat)" where
  "keyToIndexOf idx = fold (\<lambda>(it, i) m. m(it_key it \<mapsto> i)) (zip idx [0..<length idx]) Map.empty"

section \<open>Recommendation (\<^verbatim>\<open>Recommender.recommend\<close>)\<close>



























section \<open>KMeans (\<^verbatim>\<open>kmeans\<close> in \<^verbatim>\<open>recommender.js\<close>)\<close>

text \<open>The initialisation loop draws indices until \<open>min k n\<close> different ones are found. Nothing
  in the code bounds it, so it is a partial function: \<open>None\<close> is a loop that never ends.\<close>

partial_function (option) initCentroids ::
  "32 word \<Rightarrow> nat set \<Rightarrow> real list list \<Rightarrow> real list list \<Rightarrow> nat \<Rightarrow> real list list option"
where
  "initCentroids a used centroids data k =
     (if length centroids < min k (length data)
      then (let (a', w) = mulberry32 a;
                idx = scale w (length data)
            in if idx \<in> used then initCentroids a' used centroids data k
               else initCentroids a' (insert idx used) (centroids @ [data ! idx]) data k)
      else Some centroids)"

text \<open>The squared distance loop over \<open>j < dim\<close>.\<close>

definition sqDist :: "nat \<Rightarrow> real list \<Rightarrow> real list \<Rightarrow> real" where
  "sqDist dimn vi ci =
     fold (\<lambda>j d. let diff = nth0 vi j - nth0 ci j in d + diff * diff) [0..<dimn] 0"

text \<open>The loop over the centroids for one point: \<open>(best, bestd)\<close>, with \<open>None\<close> for
  \<open>Infinity\<close>.\<close>

definition nearestStep ::
  "nat \<Rightarrow> real list \<Rightarrow> nat \<times> real list \<Rightarrow> nat \<times> real option \<Rightarrow> nat \<times> real option"
where
  "nearestStep dimn vi cc acc =
     (let d = sqDist dimn vi (snd cc)
      in if (case snd acc of None \<Rightarrow> True | Some bestd \<Rightarrow> d < bestd) then (fst cc, Some d)
         else acc)"

definition nearest :: "nat \<Rightarrow> real list list \<Rightarrow> real list \<Rightarrow> nat" where
  "nearest dimn centroids vi =
     fst (fold (nearestStep dimn vi) (zip [0..<length centroids] centroids) (0, None))"

text \<open>The assignment loop: \<^verbatim>\<open>if (labels[i] !== best) { labels[i] = best; changed++ }\<close>.\<close>

definition assignStep ::
  "nat \<Rightarrow> real list list \<Rightarrow> real list list \<Rightarrow> nat \<Rightarrow> nat list \<times> nat \<Rightarrow> nat list \<times> nat"
where
  "assignStep dimn centroids data i acc =
     (let best = nearest dimn centroids (data ! i)
      in if fst acc ! i \<noteq> best then ((fst acc)[i := best], snd acc + 1) else acc)"

definition assignAll ::
  "nat \<Rightarrow> real list list \<Rightarrow> real list list \<Rightarrow> nat list \<Rightarrow> nat list \<times> nat"
where
  "assignAll dimn centroids data labels =
     fold (assignStep dimn centroids data) [0..<length data] (labels, 0)"

text \<open>Recomputing the centroids: every centroid is first replaced by a zero vector, then the
  points are added to the centroid of their label and counted, then every centroid with a
  count other than 0 is divided by its count.\<close>

definition accumulateStep ::
  "nat \<Rightarrow> real list list \<Rightarrow> nat list \<Rightarrow> nat \<Rightarrow> nat list \<times> real list list
     \<Rightarrow> nat list \<times> real list list"
where
  "accumulateStep dimn data labels i acc =
     (let c = labels ! i
      in ((fst acc)[c := fst acc ! c + 1],
          (snd acc)[c := map (\<lambda>j. nth0 (snd acc ! c) j + nth0 (data ! i) j) [0..<dimn]]))"

definition recompute :: "nat \<Rightarrow> nat \<Rightarrow> real list list \<Rightarrow> nat list \<Rightarrow> real list list" where
  "recompute dimn k data labels =
     (let (counts, totals) = fold (accumulateStep dimn data labels) [0..<length data]
                             (replicate k 0, replicate k (replicate dimn 0))
      in map (\<lambda>(n, s). if n = 0 then s else map (\<lambda>x. x / real n) s) (zip counts totals))"

text \<open>The \<^verbatim>\<open>for (it = 0; it < maxIter; it++)\<close> loop; the first argument counts the rounds that
  are left.\<close>

fun kmeansLoop ::
  "nat \<Rightarrow> nat \<Rightarrow> real list list \<Rightarrow> real list list \<Rightarrow> nat list \<Rightarrow> nat list \<times> real list list"
where
  "kmeansLoop 0 dimn data centroids labels = (labels, centroids)"
| "kmeansLoop (Suc n) dimn data centroids labels =
     (let (labels', changed) = assignAll dimn centroids data labels
      in if changed = 0 then (labels', centroids)
         else kmeansLoop n dimn data (recompute dimn (length centroids) data labels') labels')"

definition kmeans :: "real list list \<Rightarrow> nat \<Rightarrow> nat \<Rightarrow> (nat list \<times> real list list) option" where
  "kmeans data k maxIter =
     (if data = [] then Some ([], [])
      else case initCentroids 123456 {} [] data k of
             None \<Rightarrow> None
           | Some centroids \<Rightarrow>
               Some (kmeansLoop maxIter (length (data ! 0)) data centroids
                       (replicate (length data) 0)))"

text \<open>The points of a cluster, as indices into the data, and their mean.\<close>

definition members :: "nat list \<Rightarrow> nat \<Rightarrow> nat list" where
  "members labels c = filter (\<lambda>i. labels ! i = c) [0..<length labels]"

definition meanOf :: "nat \<Rightarrow> real list list \<Rightarrow> nat list \<Rightarrow> real list" where
  "meanOf dimn data ms =
     map (\<lambda>j. (\<Sum>i\<leftarrow>ms. nth0 (data ! i) j) / real (length ms)) [0..<dimn]"

section \<open>A one-category catalog, by file number\<close>

text \<open>
  For a catalog with the single category \<open>A\<close> and the files \<open>00\<close>, \<open>01\<close>, ... the sampler
  loop can be followed on file numbers alone: \<open>drawIndex\<close> is the number of the file an attempt
  draws, and \<open>idxLoop\<close> is the loop on the list of numbers emitted so far, started from an
  empty window. It is used to evaluate one concrete call (\<open>sampleLoop_idxLoop\<close> relates it to
  \<open>sampleLoop\<close>).
\<close>

definition fileName :: "nat \<Rightarrow> string" where
  "fileName k = [''0123456789'' ! (k div 10), ''0123456789'' ! (k mod 10)]"

definition numberedFiles :: "nat \<Rightarrow> string list" where
  "numberedFiles n = map fileName [0..<n]"

definition drawIndex :: "nat \<Rightarrow> nat \<Rightarrow> nat \<Rightarrow> nat \<Rightarrow> nat" where
  "drawIndex G n i attempts =
     (scale (snd (mulberry32 (fst (mulberry32 (attemptSeed G i attempts))))) n + i mod 2) mod n"

function idxLoop :: "nat \<Rightarrow> nat \<Rightarrow> nat \<Rightarrow> nat \<Rightarrow> nat \<Rightarrow> nat list \<Rightarrow> nat list" where
  "idxLoop G n offset limit attempts ns =
     (if length ns < limit \<and> attempts < limit * 10
      then (let k = drawIndex G n (offset + length ns) (attempts + 1)
            in if k \<in> set (sliceLast 50 ns) then idxLoop G n offset limit (attempts + 1) ns
               else idxLoop G n offset limit (attempts + 1) (ns @ [k]))
      else ns)"
  by pat_completeness auto
termination
  by (relation "measure (\<lambda>(G, n, offset, limit, attempts, ns). limit * 10 - attempts)") auto

declare idxLoop.simps [simp del]

section \<open>Properties of the recent window and the sampler loop\<close>

lemma evict_queue: "recentQueue (evict st) = sliceLast RECENT_LIMIT (recentQueue st)"
proof (induction st rule: evict.induct)
  case (1 st)
  show ?case
  proof (cases "length (recentQueue st) > RECENT_LIMIT")
    case False
    then show ?thesis by (simp add: evict.simps [of st] sliceLast_def)
  next
    case True
    then obtain old rest where q: "recentQueue st = old # rest"
      by (cases "recentQueue st") auto
    from True q have "length rest \<ge> RECENT_LIMIT" by simp
    with 1 [OF True q] True q show ?thesis
      by (simp add: evict.simps [of st] sliceLast_def Suc_diff_le)
  qed
qed

lemma evict_set:
  "recentSet (evict st) =
     recentSet st - set (take (length (recentQueue st) - RECENT_LIMIT) (recentQueue st))"
proof (induction st rule: evict.induct)
  case (1 st)
  show ?case
  proof (cases "length (recentQueue st) > RECENT_LIMIT")
    case False
    then show ?thesis by (simp add: evict.simps [of st])
  next
    case True
    then obtain old rest where q: "recentQueue st = old # rest"
      by (cases "recentQueue st") auto
    from True q have "length rest \<ge> RECENT_LIMIT" by simp
    with 1 [OF True q] True q show ?thesis
      by (auto simp: evict.simps [of st] Suc_diff_le)
  qed
qed

lemma sliceLast_length: "length (sliceLast n q) \<le> n"
  by (simp add: sliceLast_def)

lemma sliceLast_distinct: "distinct q \<Longrightarrow> distinct (sliceLast n q)"
  by (simp add: sliceLast_def)

lemma set_drop_distinct: "distinct xs \<Longrightarrow> set (drop n xs) = set xs - set (take n xs)"
proof -
  assume d: "distinct xs"
  have "set xs = set (take n xs) \<union> set (drop n xs)"
    by (metis append_take_drop_id set_append)
  moreover have "set (take n xs) \<inter> set (drop n xs) = {}"
    using d by (metis append_take_drop_id distinct_append)
  ultimately show ?thesis by blast
qed

lemma pushRecent_queue:
  "recentQueue (pushRecent key st) = sliceLast RECENT_LIMIT (recentQueue st @ [key])"
  by (simp add: pushRecent_def Let_def evict_queue)

lemma pushRecent_set:
  "recentSet (pushRecent key st) =
     insert key (recentSet st -
       set (take (Suc (length (recentQueue st)) - RECENT_LIMIT) (recentQueue st @ [key])))"
  by (simp add: pushRecent_def Let_def evict_set)

lemma pushRecent_inv:
  assumes "windowInv st" "key \<notin> recentSet st"
  shows "windowInv (pushRecent key st)"
proof -
  let ?q = "recentQueue st @ [key]"
  let ?n = "Suc (length (recentQueue st)) - RECENT_LIMIT"
  have d: "distinct ?q" and m: "recentSet st = set (recentQueue st)"
    using assms by (auto simp: windowInv_def)
  have k: "key \<in> set (drop ?n ?q)"
    by (simp add: RECENT_LIMIT_def)
  have "set (drop ?n ?q) = set ?q - set (take ?n ?q)"
    by (rule set_drop_distinct [OF d])
  with k m have "recentSet (pushRecent key st) = set (drop ?n ?q)"
    unfolding pushRecent_set by auto
  then have "recentSet (pushRecent key st) = set (recentQueue (pushRecent key st))"
    by (simp add: pushRecent_queue sliceLast_def)
  moreover have "distinct (recentQueue (pushRecent key st))"
    unfolding pushRecent_queue by (rule sliceLast_distinct [OF d])
  moreover have "length (recentQueue (pushRecent key st)) \<le> RECENT_LIMIT"
    unfolding pushRecent_queue by (rule sliceLast_length)
  ultimately show ?thesis by (simp add: windowInv_def)
qed

lemma postKey_mkPost [simp]: "postKey (mkPost cat file) = mkKey cat file"
  by (simp add: postKey_def mkPost_def)

lemma sampleLoop_stop:
  "\<not> (length out < limit \<and> attempts < limit * 10) \<Longrightarrow>
   sampleLoop G cs fm offset limit attempts out st = (attempts, out, st)"
  by (subst sampleLoop.simps) auto

lemma sampleLoop_step:
  "length out < limit \<Longrightarrow> attempts < limit * 10 \<Longrightarrow>
   sampleLoop G cs fm offset limit attempts out st =
     (case draw G cs fm (offset + length out) (Suc attempts) of
        None \<Rightarrow> sampleLoop G cs fm offset limit (Suc attempts) out st
      | Some (cat, file) \<Rightarrow>
          if mkKey cat file \<in> recentSet st
          then sampleLoop G cs fm offset limit (Suc attempts) out st
          else sampleLoop G cs fm offset limit (Suc attempts)
                 (out @ [mkPost cat file]) (pushRecent (mkKey cat file) st))"
  by (subst sampleLoop.simps) (simp add: Let_def)

lemma sampleLoop_rule:
  assumes init: "P attempts out st"
    and retry: "\<And>a ps s. P a ps s \<Longrightarrow> length ps < limit \<Longrightarrow> a < limit * 10 \<Longrightarrow> P (Suc a) ps s"
    and accept: "\<And>a ps s cat file. P a ps s \<Longrightarrow> length ps < limit \<Longrightarrow> a < limit * 10 \<Longrightarrow>
           draw G cs fm (offset + length ps) (Suc a) = Some (cat, file) \<Longrightarrow>
           mkKey cat file \<notin> recentSet s \<Longrightarrow>
           P (Suc a) (ps @ [mkPost cat file]) (pushRecent (mkKey cat file) s)"
  shows "case sampleLoop G cs fm offset limit attempts out st of
           (a', ps', s') \<Rightarrow> P a' ps' s' \<and> \<not> (length ps' < limit \<and> a' < limit * 10)"
proof -
  have "P attempts out st \<Longrightarrow>
        (\<forall>a ps s. P a ps s \<longrightarrow> length ps < limit \<longrightarrow> a < limit * 10 \<longrightarrow> P (Suc a) ps s) \<Longrightarrow>
        (\<forall>a ps s cat file. P a ps s \<longrightarrow> length ps < limit \<longrightarrow> a < limit * 10 \<longrightarrow>
           draw G cs fm (offset + length ps) (Suc a) = Some (cat, file) \<longrightarrow>
           mkKey cat file \<notin> recentSet s \<longrightarrow>
           P (Suc a) (ps @ [mkPost cat file]) (pushRecent (mkKey cat file) s)) \<Longrightarrow>
        (case sampleLoop G cs fm offset limit attempts out st of
           (a', ps', s') \<Rightarrow> P a' ps' s' \<and> \<not> (length ps' < limit \<and> a' < limit * 10))"
  proof (induction G cs fm offset limit attempts out st rule: sampleLoop.induct)
    case (1 G cs fm offset limit attempts out st)
    note P0 = \<open>P attempts out st\<close> and R = 1(5) and A = 1(6)
    show ?case
    proof (cases "length out < limit \<and> attempts < limit * 10")
      case False
      with P0 show ?thesis by (simp add: sampleLoop_stop)
    next
      case True
      then have c1: "length out < limit" and c2: "attempts < limit * 10" by simp_all
      have Pr: "P (Suc attempts) out st" using R P0 c1 c2 by blast
      show ?thesis
      proof (cases "draw G cs fm (offset + length out) (Suc attempts)")
        case None
        then have d: "draw G cs fm (offset + length out) (attempts + 1) = None" by simp
        from 1(1) [OF True refl refl d _ R A] Pr None c1 c2 show ?thesis
          by (simp add: sampleLoop_step)
      next
        case (Some cf)
        obtain cat fl where cf: "cf = (cat, fl)" by (cases cf)
        from Some cf have d: "draw G cs fm (offset + length out) (attempts + 1) = Some (cat, fl)"
          by simp
        show ?thesis
        proof (cases "mkKey cat fl \<in> recentSet st")
          case k: True
          from 1(2) [OF True refl refl d refl k _ R A] Pr Some cf k c1 c2 show ?thesis
            by (simp add: sampleLoop_step)
        next
          case k: False
          have "P (Suc attempts) (out @ [mkPost cat fl]) (pushRecent (mkKey cat fl) st)"
            using A P0 c1 c2 k Some cf by blast
          with 1(3) [OF True refl refl d refl k _ R A] Some cf k c1 c2 show ?thesis
            by (simp add: sampleLoop_step)
        qed
      qed
    qed
  qed
  note main = this
  have r: "\<forall>a ps s. P a ps s \<longrightarrow> length ps < limit \<longrightarrow> a < limit * 10 \<longrightarrow> P (Suc a) ps s"
    using retry by blast
  have a: "\<forall>a ps s cat file. P a ps s \<longrightarrow> length ps < limit \<longrightarrow> a < limit * 10 \<longrightarrow>
           draw G cs fm (offset + length ps) (Suc a) = Some (cat, file) \<longrightarrow>
           mkKey cat file \<notin> recentSet s \<longrightarrow>
           P (Suc a) (ps @ [mkPost cat file]) (pushRecent (mkKey cat file) s)"
    using accept by blast
  show ?thesis by (rule main [OF init r a])
qed


lemma scale_less: "0 < n \<Longrightarrow> scale w n < n"
proof -
  assume n: "0 < n"
  have "unat w < 4294967296" using unsigned_less [of w, where 'a = nat] by simp
  then have "unat w * n < 4294967296 * n" using n by simp
  then show ?thesis unfolding scale_def
    by (simp add: less_mult_imp_div_less mult.commute)
qed

lemma draw_SomeD:
  assumes "draw G cs fm i a = Some (cat, fl)"
  shows "\<exists>files. fm cat = Some files \<and> files \<noteq> [] \<and>
           cat = cs ! scale (snd (mulberry32 (attemptSeed G i a))) (length cs) \<and>
           fl = pickFile files
                  (scale (snd (mulberry32 (fst (mulberry32 (attemptSeed G i a))))) (length files)) i"
  using assms
  by (auto simp: draw_def Let_def split: prod.splits option.splits if_splits)

lemma pickFile_mem: "files \<noteq> [] \<Longrightarrow> pickFile files start i \<in> set files"
  by (simp add: pickFile_def)

lemma draw_catalog:
  assumes "draw G cs fm i a = Some (cat, fl)" "cs \<noteq> []"
  shows "mkKey cat fl \<in> catalogKeys cs fm"
proof -
  from draw_SomeD [OF assms(1)] obtain files where
    f: "fm cat = Some files" "files \<noteq> []"
    and c: "cat = cs ! scale (snd (mulberry32 (attemptSeed G i a))) (length cs)"
    and p: "fl = pickFile files
              (scale (snd (mulberry32 (fst (mulberry32 (attemptSeed G i a))))) (length files)) i"
    by blast
  have "cat \<in> set cs" using c assms(2) by (simp add: scale_less)
  moreover have "fl \<in> set files" using p f(2) by (simp add: pickFile_mem)
  ultimately show ?thesis using f(1) unfolding catalogKeys_def by blast
qed

lemma sliceLast_suffix: "length ys \<le> n \<Longrightarrow> \<exists>zs. sliceLast n (xs @ ys) = zs @ ys"
  by (simp add: sliceLast_def)

lemma sliceLast_snoc: "sliceLast n (sliceLast n q @ [k]) = sliceLast n (q @ [k])"
proof (cases "length q \<le> n")
  case True
  then show ?thesis by (simp add: sliceLast_def)
next
  case False
  then have "Suc (length q) - (length q - n + n) + (length q - n) = Suc (length q) - n"
    by arith
  with False show ?thesis by (cases "n = 0") (auto simp: sliceLast_def)
qed

lemma sampleLoop_windowInv:
  "windowInv st \<Longrightarrow> windowInv (snd (snd (sampleLoop G cs fm offset limit attempts out st)))"
  using sampleLoop_rule [of "\<lambda>a ps s. windowInv s" attempts out st limit G cs fm offset]
  by (auto simp: pushRecent_inv split: prod.splits)

lemma generatePostsRange_windowInv:
  "windowInv st \<Longrightarrow> windowInv (snd (generatePostsRange G cs fm offset limit st))"
  using sampleLoop_windowInv [of st G cs fm offset limit 0 "[]"]
  by (auto simp: generatePostsRange_def split: prod.splits)

lemma windowInv_empty: "windowInv emptyRecent"
  by (simp add: windowInv_def emptyRecent_def)

lemma sliceLast_short: "length q \<le> n \<Longrightarrow> sliceLast n q = q"
  by (simp add: sliceLast_def)

lemma loadPersistent_saved:
  "windowInv st \<Longrightarrow> loadPersistent (Some (saveRecent st)) st0 = st"
  by (cases st) (simp add: loadPersistent_def saveRecent_def windowInv_def sliceLast_short)

lemma loadPersistent_mirror:
  "length (recentQueue (loadPersistent (Some q) st0)) \<le> RECENT_LIMIT \<and>
   recentSet (loadPersistent (Some q) st0) = set (recentQueue (loadPersistent (Some q) st0)) \<and>
   recentQueue (loadPersistent (Some q) st0) = sliceLast RECENT_LIMIT q"
  by (simp add: loadPersistent_def Let_def sliceLast_length)

lemma reachable_inv:
  "reachable sf \<Longrightarrow>
   windowInv (fst sf) \<and> (\<forall>q. snd sf = Some q \<longrightarrow> windowInv (loadPersistent (Some q) emptyRecent))"
proof (induction rule: reachable.induct)
  case start
  show ?case by (simp add: windowInv_empty)
next
  case (sample st f G categories fileMap offset limit)
  then show ?case by (simp add: generatePostsRange_windowInv)
next
  case (save st f)
  then show ?case by (simp add: loadPersistent_saved)
next
  case (restart st f)
  then show ?case by (cases f) (auto simp: windowInv_empty loadPersistent_def)
qed

text \<open>
  C2. In every state the server can reach (from an empty window, through any calls of
  \<^verbatim>\<open>generatePostsRange\<close>, saves and restarts that load the saved file), the queue holds at
  most 50 keys and the membership set is exactly the set of keys in the queue; the same holds
  after one more call of the sampler and right after loading any parsed queue; and pushing a
  key keeps the last 50 entries of the extended queue, so the oldest key leaves first.
\<close>

theorem recent_window_invariant:
  assumes "reachable (st, f)"
  shows "length (recentQueue st) \<le> 50 \<and> recentSet st = set (recentQueue st) \<and>
         (let st' = snd (generatePostsRange G categories fileMap offset limit st)
          in length (recentQueue st') \<le> 50 \<and> recentSet st' = set (recentQueue st')) \<and>
         (let st' = loadPersistent (Some q) st
          in length (recentQueue st') \<le> 50 \<and> recentSet st' = set (recentQueue st')) \<and>
         recentQueue (pushRecent key st) = sliceLast 50 (recentQueue st @ [key])"
proof -
  have 1: "windowInv st" using reachable_inv [OF assms] by simp
  have 2: "windowInv (snd (generatePostsRange G categories fileMap offset limit st))"
    by (rule generatePostsRange_windowInv [OF 1])
  show ?thesis
    using 1 2 loadPersistent_mirror [of q st] pushRecent_queue [of key st]
    by (simp add: windowInv_def RECENT_LIMIT_def Let_def sliceLast_length)
qed

theorem recent_window_invariant_witness:
  "reachable (snd (generatePostsRange 7 [''A''] [''A'' \<mapsto> [''a.mp4'']] 0 1 emptyRecent), None) \<and>
   recentSet (snd (generatePostsRange 7 [''A''] [''A'' \<mapsto> [''a.mp4'']] 0 1 emptyRecent)) =
     set (recentQueue (snd (generatePostsRange 7 [''A''] [''A'' \<mapsto> [''a.mp4'']] 0 1 emptyRecent)))"
proof -
  have r: "reachable (snd (generatePostsRange 7 [''A''] [''A'' \<mapsto> [''a.mp4'']] 0 1 emptyRecent), None)"
    by (rule reachable.sample [OF reachable.start])
  show ?thesis using r recent_window_invariant [OF r] by simp
qed

lemma sliceLast_snoc2:
  "sliceLast n (sliceLast n (xs @ ys) @ [k]) = sliceLast n (xs @ ys @ [k])"
  using sliceLast_snoc [of n "xs @ ys" k] by simp

lemma pushRecent_track:
  assumes "recentQueue s = sliceLast RECENT_LIMIT (q0 @ map postKey ps)"
  shows "recentQueue (pushRecent (mkKey cat fl) s) =
           sliceLast RECENT_LIMIT (q0 @ map postKey (ps @ [mkPost cat fl]))"
proof -
  have "recentQueue (pushRecent (mkKey cat fl) s) =
          sliceLast RECENT_LIMIT (sliceLast RECENT_LIMIT (q0 @ map postKey ps) @ [mkKey cat fl])"
    unfolding pushRecent_queue assms ..
  also have "\<dots> = sliceLast RECENT_LIMIT (q0 @ map postKey ps @ [mkKey cat fl])"
    by (rule sliceLast_snoc2)
  finally show ?thesis by simp
qed

lemma sampleLoop_window:
  assumes "windowInv st"
  shows "case sampleLoop G cs fm offset limit 0 [] st of (a', ps', s') \<Rightarrow>
           windowInv s' \<and> length ps' \<le> limit \<and> a' \<le> limit * 10 \<and>
           recentQueue s' = sliceLast RECENT_LIMIT (recentQueue st @ map postKey ps')"
proof -
  let ?P = "\<lambda>a ps s. windowInv s \<and> length ps \<le> limit \<and> a \<le> limit * 10 \<and>
              recentQueue s = sliceLast RECENT_LIMIT (recentQueue st @ map postKey ps)"
  have init: "?P 0 [] st"
    using assms by (simp add: windowInv_def sliceLast_short)
  have retry: "\<And>a ps s. ?P a ps s \<Longrightarrow> length ps < limit \<Longrightarrow> a < limit * 10 \<Longrightarrow> ?P (Suc a) ps s"
    by simp
  have accept: "\<And>a ps s cat fl. ?P a ps s \<Longrightarrow> length ps < limit \<Longrightarrow> a < limit * 10 \<Longrightarrow>
           draw G cs fm (offset + length ps) (Suc a) = Some (cat, fl) \<Longrightarrow>
           mkKey cat fl \<notin> recentSet s \<Longrightarrow>
           ?P (Suc a) (ps @ [mkPost cat fl]) (pushRecent (mkKey cat fl) s)"
  proof -
    fix a ps s cat fl
    assume P: "?P a ps s" and l: "length ps < limit" "a < limit * 10"
      and k: "mkKey cat fl \<notin> recentSet s"
    from P have w: "windowInv s"
      and q: "recentQueue s = sliceLast RECENT_LIMIT (recentQueue st @ map postKey ps)"
      by blast+
    have "windowInv (pushRecent (mkKey cat fl) s)" by (rule pushRecent_inv [OF w k])
    moreover have "recentQueue (pushRecent (mkKey cat fl) s) =
        sliceLast RECENT_LIMIT (recentQueue st @ map postKey (ps @ [mkPost cat fl]))"
      by (rule pushRecent_track [OF q])
    ultimately show "?P (Suc a) (ps @ [mkPost cat fl]) (pushRecent (mkKey cat fl) s)"
      using l by simp
  qed
  have "case sampleLoop G cs fm offset limit 0 [] st of
          (a', ps', s') \<Rightarrow> ?P a' ps' s' \<and> \<not> (length ps' < limit \<and> a' < limit * 10)"
    by (rule sampleLoop_rule [where P = ?P, OF init retry accept])
  then show ?thesis
    by (simp split: prod.splits)
qed

lemma suffix_distinct:
  assumes "distinct (sliceLast n (xs @ ys))" "length ys \<le> n"
  shows "distinct ys \<and> set ys \<subseteq> set (sliceLast n (xs @ ys))"
proof -
  from sliceLast_suffix [OF assms(2), of xs] obtain zs where "sliceLast n (xs @ ys) = zs @ ys"
    by blast
  with assms(1) show ?thesis by auto
qed

lemma sample_keys_distinct_upto:
  assumes "windowInv st"
  shows "(limit \<le> 50 \<longrightarrow>
            distinct (map postKey (fst (generatePostsRange G categories fileMap offset limit st)))) \<and>
         recentQueue (snd (generatePostsRange G categories fileMap offset limit st)) =
           sliceLast 50 (recentQueue st @
             map postKey (fst (generatePostsRange G categories fileMap offset limit st)))"
proof (cases "categories = []")
  case True
  then show ?thesis
    using assms by (simp add: generatePostsRange_def windowInv_def sliceLast_short RECENT_LIMIT_def)
next
  case False
  obtain a ps s where r: "sampleLoop G categories fileMap offset limit 0 [] st = (a, ps, s)"
    by (cases "sampleLoop G categories fileMap offset limit 0 [] st") auto
  with sampleLoop_window [OF assms(1), where G = G and cs = categories and fm = fileMap
      and offset = offset and limit = limit]
  have w: "windowInv s" and l: "length ps \<le> limit"
    and q: "recentQueue s = sliceLast RECENT_LIMIT (recentQueue st @ map postKey ps)"
    by simp_all
  have "distinct (map postKey ps)" if "limit \<le> 50"
  proof -
    from w have "distinct (recentQueue s)" by (simp add: windowInv_def)
    then have "distinct (sliceLast RECENT_LIMIT (recentQueue st @ map postKey ps))"
      unfolding q .
    moreover have "length (map postKey ps) \<le> RECENT_LIMIT"
      using l that by (simp add: RECENT_LIMIT_def)
    ultimately show ?thesis using suffix_distinct by blast
  qed
  moreover have "recentQueue s = sliceLast 50 (recentQueue st @ map postKey ps)"
    using q by (simp add: RECENT_LIMIT_def)
  ultimately show ?thesis using False r by (simp add: generatePostsRange_def)
qed


lemma catalogKeys_Union:
  "catalogKeys cs fm =
     (\<Union>c \<in> set cs. case fm c of None \<Rightarrow> {} | Some fs \<Rightarrow> mkKey c ` set fs)"
  unfolding catalogKeys_def
proof (intro set_eqI iffI)
  fix k
  assume "k \<in> {mkKey c f |c f files. c \<in> set cs \<and> fm c = Some files \<and> f \<in> set files}"
  then obtain c f files where "k = mkKey c f" "c \<in> set cs" "fm c = Some files" "f \<in> set files"
    by blast
  then show "k \<in> (\<Union>c \<in> set cs. case fm c of None \<Rightarrow> {} | Some fs \<Rightarrow> mkKey c ` set fs)"
    by force
next
  fix k
  assume "k \<in> (\<Union>c \<in> set cs. case fm c of None \<Rightarrow> {} | Some fs \<Rightarrow> mkKey c ` set fs)"
  then obtain c where c: "c \<in> set cs" "k \<in> (case fm c of None \<Rightarrow> {} | Some fs \<Rightarrow> mkKey c ` set fs)"
    by blast
  then obtain fs where "fm c = Some fs" "k \<in> mkKey c ` set fs"
    by (cases "fm c") auto
  with c(1) show "k \<in> {mkKey c f |c f files. c \<in> set cs \<and> fm c = Some files \<and> f \<in> set files}"
    by blast
qed

lemma finite_catalogKeys: "finite (catalogKeys cs fm)"
  unfolding catalogKeys_Union by (auto split: option.splits)

lemma sampleLoop_catalog:
  assumes "windowInv st" "cs \<noteq> []" "card (catalogKeys cs fm) \<le> RECENT_LIMIT"
  shows "case sampleLoop G cs fm offset limit 0 [] st of (a', ps', s') \<Rightarrow>
           distinct (map postKey ps') \<and> set (map postKey ps') \<subseteq> catalogKeys cs fm"
proof -
  let ?K = "catalogKeys cs fm"
  let ?P = "\<lambda>a ps s. windowInv s \<and>
              recentQueue s = sliceLast RECENT_LIMIT (recentQueue st @ map postKey ps) \<and>
              distinct (map postKey ps) \<and> set (map postKey ps) \<subseteq> ?K"
  have init: "?P 0 [] st"
    using assms by (simp add: windowInv_def sliceLast_short)
  have retry: "\<And>a ps s. ?P a ps s \<Longrightarrow> length ps < limit \<Longrightarrow> a < limit * 10 \<Longrightarrow> ?P (Suc a) ps s"
    by simp
  have accept: "\<And>a ps s cat fl. ?P a ps s \<Longrightarrow> length ps < limit \<Longrightarrow> a < limit * 10 \<Longrightarrow>
           draw G cs fm (offset + length ps) (Suc a) = Some (cat, fl) \<Longrightarrow>
           mkKey cat fl \<notin> recentSet s \<Longrightarrow>
           ?P (Suc a) (ps @ [mkPost cat fl]) (pushRecent (mkKey cat fl) s)"
  proof -
    fix a ps s cat fl
    assume P: "?P a ps s" and d: "draw G cs fm (offset + length ps) (Suc a) = Some (cat, fl)"
      and k: "mkKey cat fl \<notin> recentSet s"
    have kK: "mkKey cat fl \<in> ?K" by (rule draw_catalog [OF d assms(2)])
    have "length (map postKey ps) = card (set (map postKey ps))"
      using P distinct_card [of "map postKey ps"] by simp
    also have "\<dots> \<le> card ?K"
      using P by (intro card_mono finite_catalogKeys) simp
    finally have len: "length (map postKey ps) \<le> RECENT_LIMIT" using assms(3) by simp
    from P have w: "windowInv s"
      and q: "recentQueue s = sliceLast RECENT_LIMIT (recentQueue st @ map postKey ps)"
      by blast+
    from w have dq: "distinct (recentQueue s)" and m: "recentSet s = set (recentQueue s)"
      by (simp_all add: windowInv_def)
    from dq have "distinct (sliceLast RECENT_LIMIT (recentQueue st @ map postKey ps))"
      unfolding q .
    from suffix_distinct [OF this len]
    have "set (map postKey ps) \<subseteq> recentSet s" unfolding m q by simp
    with k have nk: "mkKey cat fl \<notin> set (map postKey ps)" by blast
    have "windowInv (pushRecent (mkKey cat fl) s)" by (rule pushRecent_inv [OF w k])
    moreover have "recentQueue (pushRecent (mkKey cat fl) s) =
        sliceLast RECENT_LIMIT (recentQueue st @ map postKey (ps @ [mkPost cat fl]))"
      by (rule pushRecent_track [OF q])
    moreover have "distinct (map postKey (ps @ [mkPost cat fl]))"
      using P nk by simp
    moreover have "set (map postKey (ps @ [mkPost cat fl])) \<subseteq> ?K"
      using P kK by simp
    ultimately show "?P (Suc a) (ps @ [mkPost cat fl]) (pushRecent (mkKey cat fl) s)"
      by blast
  qed
  have "case sampleLoop G cs fm offset limit 0 [] st of
          (a', ps', s') \<Rightarrow> ?P a' ps' s' \<and> \<not> (length ps' < limit \<and> a' < limit * 10)"
    by (rule sampleLoop_rule [where P = ?P, OF init retry accept])
  then show ?thesis
    by (simp split: prod.splits)
qed

lemma sampleLoop_bounds:
  "case sampleLoop G cs fm offset limit 0 [] st of (a', ps', s') \<Rightarrow>
     length ps' \<le> limit \<and> a' \<le> limit * 10"
proof -
  let ?P = "\<lambda>a ps (s::recent). length ps \<le> limit \<and> a \<le> limit * 10"
  have "case sampleLoop G cs fm offset limit 0 [] st of
          (a', ps', s') \<Rightarrow> ?P a' ps' s' \<and> \<not> (length ps' < limit \<and> a' < limit * 10)"
    by (rule sampleLoop_rule [where P = ?P]) simp_all
  then show ?thesis by (simp split: prod.splits)
qed

text \<open>
  C7. \<^verbatim>\<open>generatePostsRange\<close> is a total function (its loop is defined with a termination
  proof on \<open>limit * 10 - attempts\<close>), so every call returns. It returns at most \<open>limit\<close>
  posts, its loop makes at most \<open>limit * 10\<close> attempts, and an empty category list gives the
  empty result and leaves the window alone. Under-fill: from a window that satisfies the
  invariant, a catalog of at most 50 keys yields at most as many posts as it has keys, however
  large \<open>limit\<close> is.
\<close>

theorem sample_bounded:
  "length (fst (generatePostsRange G categories fileMap offset limit st)) \<le> limit \<and>
   fst (sampleLoop G categories fileMap offset limit 0 [] st) \<le> limit * 10 \<and>
   generatePostsRange G [] fileMap offset limit st = ([], st) \<and>
   (windowInv st \<and> card (catalogKeys categories fileMap) \<le> 50 \<longrightarrow>
      length (fst (generatePostsRange G categories fileMap offset limit st))
        \<le> card (catalogKeys categories fileMap))"
proof -
  obtain a ps s where r: "sampleLoop G categories fileMap offset limit 0 [] st = (a, ps, s)"
    by (cases "sampleLoop G categories fileMap offset limit 0 [] st") auto
  from sampleLoop_bounds [where G = G and cs = categories and fm = fileMap
      and offset = offset and limit = limit and st = st] r
  have 1: "length ps \<le> limit" "a \<le> limit * 10" by simp_all
  have 2: "length (fst (generatePostsRange G categories fileMap offset limit st)) \<le> limit"
    using 1 r by (simp add: generatePostsRange_def)
  have 3: "length (fst (generatePostsRange G categories fileMap offset limit st))
              \<le> card (catalogKeys categories fileMap)"
    if w: "windowInv st" and c: "card (catalogKeys categories fileMap) \<le> 50"
  proof (cases "categories = []")
    case True
    then show ?thesis by (simp add: generatePostsRange_def)
  next
    case False
    from sampleLoop_catalog [OF w False, where G = G and fm = fileMap
      and offset = offset and limit = limit] c r
    have d: "distinct (map postKey ps)" and s: "set (map postKey ps) \<subseteq> catalogKeys categories fileMap"
      by (simp_all add: RECENT_LIMIT_def)
    have "length (map postKey ps) = card (set (map postKey ps))"
      using d distinct_card [of "map postKey ps"] by simp
    also have "\<dots> \<le> card (catalogKeys categories fileMap)"
      using s by (intro card_mono finite_catalogKeys)
    finally show ?thesis using False r by (simp add: generatePostsRange_def)
  qed
  show ?thesis using 1 2 3 r by (simp add: generatePostsRange_def)
qed

lemma catalogKeys_example: "catalogKeys [''A''] [''A'' \<mapsto> [''a.mp4'']] = {''A/a.mp4''}"
  by (simp add: catalogKeys_Union mkKey_def)

theorem sample_bounded_witness:
  "windowInv emptyRecent \<and> card (catalogKeys [''A''] [''A'' \<mapsto> [''a.mp4'']]) \<le> 50 \<and>
   length (fst (generatePostsRange 7 [''A''] [''A'' \<mapsto> [''a.mp4'']] 0 3 emptyRecent)) \<le> 1"
  using sample_bounded [of 7 "[''A'']" "[''A'' \<mapsto> [''a.mp4'']]" 0 3 emptyRecent]
  by (simp add: windowInv_empty catalogKeys_example)


lemma user_mkPost [simp]: "user (mkPost cat fl) = cat"
  by (simp add: mkPost_def)

lemma caption_mkPost [simp]: "caption (mkPost cat fl) = fl"
  by (simp add: mkPost_def)



lemma scale_one [simp]: "scale w (Suc 0) = 0"
  using scale_less [of "Suc 0" w] by simp





















































lemma keyToIndexOf_example2:
  "keyToIndexOf (indexOf (\<lambda>s. 0) [(''A'', [''a1'', ''a2'']), (''B'', [''b1''])]) ''A/a1'' = Some 0"
  by (simp add: keyToIndexOf_def indexOf_def mkKey_def)


lemma fold_sq: "fold (\<lambda>x s. s + x * x) v a = a + (\<Sum>x\<leftarrow>v. x * x)" for a :: real
  by (induction v arbitrary: a) simp_all

lemma sqnorm_sum: "sqnorm v = (\<Sum>x\<leftarrow>v. x * x)"
  by (simp add: sqnorm_def fold_sq)

lemma sqnorm_nonneg: "0 \<le> sqnorm v"
  unfolding sqnorm_sum by (induction v) simp_all

lemma sqnorm_zero_iff: "sqnorm v = 0 \<longleftrightarrow> (\<forall>x \<in> set v. x = 0)"
proof (induction v)
  case Nil
  show ?case by (simp add: sqnorm_sum)
next
  case (Cons x v)
  have "0 \<le> x * x" by simp
  moreover have "0 \<le> sqnorm v" by (rule sqnorm_nonneg)
  ultimately have "x * x + sqnorm v = 0 \<longleftrightarrow> x * x = 0 \<and> sqnorm v = 0"
    by (rule add_nonneg_eq_0_iff)
  with Cons show ?case by (simp add: sqnorm_sum)
qed

lemma sqnorm_scale: "sqnorm (map (\<lambda>x. x / n) v) = sqnorm v / (n * n)"
  unfolding sqnorm_sum
  by (induction v) (simp_all add: add_divide_distrib)

lemma normalize_unit:
  assumes "\<exists>x \<in> set v. x \<noteq> 0"
  shows "sqrt (sqnorm (normalize v)) = 1"
proof -
  have pos: "0 < sqnorm v"
    using assms sqnorm_nonneg [of v] sqnorm_zero_iff [of v] by (auto simp: less_le)
  then have n: "orOne (sqrt (sqnorm v)) = sqrt (sqnorm v)" by (simp add: orOne_def)
  have "sqnorm (normalize v) = sqnorm v / (sqrt (sqnorm v) * sqrt (sqnorm v))"
    by (simp add: normalize_def n sqnorm_scale)
  also have "\<dots> = 1" using pos by simp
  finally show ?thesis by simp
qed

lemma normalize_zero:
  assumes "\<forall>x \<in> set v. x = 0"
  shows "normalize v = v"
proof -
  have "sqnorm v = 0" using assms by (simp add: sqnorm_zero_iff)
  then show ?thesis by (simp add: normalize_def orOne_def)
qed

lemma indexOf_feature:
  "it \<in> set (indexOf hashToSeed fileMap) \<Longrightarrow>
   it_feature it = normalize (rawFeature hashToSeed (it_key it) (it_file it))"
  by (auto simp: indexOf_def synthesize_def)

text \<open>
  C8. Every feature stored by \<^verbatim>\<open>buildIndex\<close> is the normalised concatenation of the text,
  audio and visual vectors of its item. In exact arithmetic its Euclidean norm is 1 when the
  raw vector has a component that is not 0, and it is the raw (zero) vector otherwise.
\<close>

theorem feature_unit_norm:
  assumes "it \<in> set (indexOf hashToSeed fileMap)"
  shows "(let raw = rawFeature hashToSeed (it_key it) (it_file it)
          in it_feature it = normalize raw \<and>
             ((\<exists>x \<in> set raw. x \<noteq> 0) \<longrightarrow> sqrt (sqnorm (it_feature it)) = 1) \<and>
             ((\<forall>x \<in> set raw. x = 0) \<longrightarrow> it_feature it = raw))"
  using indexOf_feature [OF assms] normalize_unit normalize_zero
  by (simp add: Let_def)

theorem feature_unit_norm_witness:
  "\<lparr> it_key = ''A/a b.mp4'', it_category = ''A'', it_file = ''a b.mp4'',
     it_feature = synthesize (\<lambda>s. 0) ''A/a b.mp4'' ''a b.mp4'' \<rparr>
     \<in> set (indexOf (\<lambda>s. 0) [(''A'', [''a b.mp4''])]) \<and>
   synthesize (\<lambda>s. 0) ''A/a b.mp4'' ''a b.mp4'' =
     normalize (rawFeature (\<lambda>s. 0) ''A/a b.mp4'' ''a b.mp4'')"
proof -
  have m: "\<lparr> it_key = ''A/a b.mp4'', it_category = ''A'', it_file = ''a b.mp4'',
     it_feature = synthesize (\<lambda>s. 0) ''A/a b.mp4'' ''a b.mp4'' \<rparr>
     \<in> set (indexOf (\<lambda>s. 0) [(''A'', [''a b.mp4''])])"
    by (simp add: indexOf_def mkKey_def)
  from feature_unit_norm [OF m] m show ?thesis by (simp add: Let_def)
qed

lemma textVector_length: "length (textVector hashToSeed name sz) = sz"
proof -
  have "length (fold (\<lambda>t vec. let seed = hashToSeed t; idx = scale (snd (mulberry32 seed)) sz
                    in vec[idx := vec ! idx + 1]) ts v) = length v" for ts and v :: "real list"
    by (induction ts arbitrary: v) (simp_all add: Let_def)
  then show ?thesis by (simp add: textVector_def)
qed

lemma randomFloats_length: "length (randomFloats a n) = n"
  by (induction n arbitrary: a) (simp_all add: split_beta)

lemma textVector_cong:
  assumes "\<forall>t \<in> set (tokenize name). h1 t = h2 t"
  shows "textVector h1 name sz = textVector h2 name sz"
  unfolding textVector_def
  by (rule fold_cong) (use assms in \<open>simp_all add: Let_def\<close>)

lemma synthesize_length: "length (synthesize hashToSeed k f) = 80"
  by (simp add: synthesize_def normalize_def rawFeature_def Let_def textVector_length
        deterministicRandomVector_def randomFloats_length)

text \<open>
  C9. Feature synthesis is a function of the key, the file name and the hash values of the
  strings it hashes, and of nothing else: two evaluations whose arguments are equal, with hash
  functions that agree on the tokens of the file name and on \<open>key:a\<close> and \<open>key:v\<close>, return the
  same vector of 64 + 8 + 8 components. No generator state survives a call: each vector starts
  a fresh generator from its own seed.
\<close>

theorem synthesize_deterministic:
  assumes "key1 = key2" and "file1 = file2"
    and "\<forall>t \<in> set (tokenize file1) \<union> {key1 @ '':a'', key1 @ '':v''}. h1 t = h2 t"
  shows "synthesize h1 key1 file1 = synthesize h2 key2 file2 \<and>
         textVector h1 file1 64 = textVector h2 file2 64 \<and>
         deterministicRandomVector h1 (key1 @ '':a'') 8 = deterministicRandomVector h2 (key2 @ '':a'') 8 \<and>
         deterministicRandomVector h1 (key1 @ '':v'') 8 = deterministicRandomVector h2 (key2 @ '':v'') 8 \<and>
         length (textVector h1 file1 64) = 64 \<and>
         length (deterministicRandomVector h1 (key1 @ '':a'') 8) = 8 \<and>
         length (deterministicRandomVector h1 (key1 @ '':v'') 8) = 8 \<and>
         length (synthesize h1 key1 file1) = 80"
proof -
  have t: "textVector h1 file1 64 = textVector h2 file2 64"
    using assms(2,3) textVector_cong [of file1 h1 h2 64] by simp
  have a: "deterministicRandomVector h1 (key1 @ '':a'') 8 = deterministicRandomVector h2 (key2 @ '':a'') 8"
    and v: "deterministicRandomVector h1 (key1 @ '':v'') 8 = deterministicRandomVector h2 (key2 @ '':v'') 8"
    using assms(1,3) by (simp_all add: deterministicRandomVector_def)
  have "synthesize h1 key1 file1 = synthesize h2 key2 file2"
    using t a v assms(1,2) by (simp add: synthesize_def rawFeature_def)
  then show ?thesis
    using t a v
    by (simp add: textVector_length deterministicRandomVector_def randomFloats_length
          synthesize_length)
qed

lemma tokenize_example: "tokenize ''My Clip-01.MP4'' = [''my'', ''clip'', ''01'', ''mp4'']"
  by code_simp

theorem synthesize_deterministic_witness:
  "tokenize ''My Clip-01.MP4'' = [''my'', ''clip'', ''01'', ''mp4''] \<and>
   synthesize (\<lambda>s. of_nat (length s)) ''A/My Clip-01.MP4'' ''My Clip-01.MP4'' =
     synthesize (\<lambda>s. if length s > 100 then 7 else of_nat (length s)) ''A/My Clip-01.MP4'' ''My Clip-01.MP4''"
proof -
  have h: "\<forall>t \<in> set (tokenize ''My Clip-01.MP4'') \<union> {''A/My Clip-01.MP4'' @ '':a'', ''A/My Clip-01.MP4'' @ '':v''}.
      (\<lambda>s. of_nat (length s)) t = ((\<lambda>s. if length s > 100 then 7 else of_nat (length s)) t :: 32 word)"
    by (simp add: tokenize_example)
  from synthesize_deterministic [OF refl refl h] tokenize_example show ?thesis by blast
qed

lemma fold_nearestStep_less:
  "\<forall>cc \<in> set ccs. fst cc < k \<Longrightarrow> fst acc < k \<Longrightarrow>
   fst (fold (nearestStep dimn vi) ccs acc) < k"
proof (induction ccs arbitrary: acc)
  case Nil
  then show ?case by simp
next
  case (Cons cc ccs)
  have "fst (nearestStep dimn vi cc acc) < k"
    using Cons.prems by (simp add: nearestStep_def Let_def)
  with Cons show ?case by simp
qed

lemma nearest_less: "centroids \<noteq> [] \<Longrightarrow> nearest dimn centroids vi < length centroids"
  unfolding nearest_def
  by (rule fold_nearestStep_less) (auto dest: set_zip_leftD)

lemma assign_fold:
  "m \<le> length data \<Longrightarrow> length labels = length data \<Longrightarrow>
   fst (fold (assignStep dimn centroids data) [0..<m] (labels, 0)) =
     map (\<lambda>i. nearest dimn centroids (data ! i)) [0..<m] @ drop m labels \<and>
   snd (fold (assignStep dimn centroids data) [0..<m] (labels, 0)) =
     length (filter (\<lambda>i. labels ! i \<noteq> nearest dimn centroids (data ! i)) [0..<m])"
proof (induction m)
  case 0
  then show ?case by simp
next
  case (Suc m)
  let ?new = "map (\<lambda>i. nearest dimn centroids (data ! i)) [0..<m]"
  let ?best = "nearest dimn centroids (data ! m)"
  obtain lab ch where acc: "fold (assignStep dimn centroids data) [0..<m] (labels, 0) = (lab, ch)"
    by (cases "fold (assignStep dimn centroids data) [0..<m] (labels, 0)") auto
  from Suc acc have lab: "lab = ?new @ drop m labels"
    and ch: "ch = length (filter (\<lambda>i. labels ! i \<noteq> nearest dimn centroids (data ! i)) [0..<m])"
    by simp_all
  have m: "m < length labels" using Suc.prems by simp
  have at: "lab ! m = labels ! m"
    using m by (simp add: lab nth_append)
  have upd: "lab[m := ?best] = ?new @ [?best] @ drop (Suc m) labels"
    using m by (simp add: lab list_update_append Cons_nth_drop_Suc [symmetric])
  have same: "lab = ?new @ [labels ! m] @ drop (Suc m) labels"
    using m by (simp add: lab Cons_nth_drop_Suc)
  have step: "fold (assignStep dimn centroids data) [0..<Suc m] (labels, 0) =
          assignStep dimn centroids data m (lab, ch)"
    using acc by simp
  show ?case
  proof (cases "labels ! m = ?best")
    case True
    then have "assignStep dimn centroids data m (lab, ch) = (lab, ch)"
      using at by (simp add: assignStep_def)
    then show ?thesis unfolding step using same ch True by simp
  next
    case False
    then have "assignStep dimn centroids data m (lab, ch) = (lab[m := ?best], ch + 1)"
      using at by (simp add: assignStep_def)
    then show ?thesis unfolding step using upd ch False by simp
  qed
qed

lemma assignAll_labels:
  assumes "length labels = length data"
  shows "fst (assignAll dimn centroids data labels) = map (nearest dimn centroids) data"
    and "snd (assignAll dimn centroids data labels) =
           length (filter (\<lambda>i. labels ! i \<noteq> nearest dimn centroids (data ! i)) [0..<length data])"
proof -
  from assign_fold [OF le_refl assms, of dimn centroids]
  have 1: "fst (assignAll dimn centroids data labels) =
             map (\<lambda>i. nearest dimn centroids (data ! i)) [0..<length data]"
    and 2: "snd (assignAll dimn centroids data labels) =
           length (filter (\<lambda>i. labels ! i \<noteq> nearest dimn centroids (data ! i)) [0..<length data])"
    using assms by (simp_all add: assignAll_def)
  show "snd (assignAll dimn centroids data labels) =
           length (filter (\<lambda>i. labels ! i \<noteq> nearest dimn centroids (data ! i)) [0..<length data])"
    by (rule 2)
  have "map (\<lambda>i. nearest dimn centroids (data ! i)) [0..<length data] =
        map (nearest dimn centroids) (map ((!) data) [0..<length data])"
    by simp
  also have "\<dots> = map (nearest dimn centroids) data" by (simp only: map_nth)
  finally show "fst (assignAll dimn centroids data labels) = map (nearest dimn centroids) data"
    using 1 by simp
qed

lemma assignAll_unchanged:
  assumes "length labels = length data"
  shows "snd (assignAll dimn centroids data labels) = 0 \<longleftrightarrow>
         fst (assignAll dimn centroids data labels) = labels"
proof -
  have "snd (assignAll dimn centroids data labels) = 0 \<longleftrightarrow>
        (\<forall>i < length data. labels ! i = nearest dimn centroids (data ! i))"
    unfolding assignAll_labels(2) [OF assms] by (auto simp: filter_empty_conv)
  also have "\<dots> \<longleftrightarrow> map (nearest dimn centroids) data = labels"
    using assms by (auto simp: list_eq_iff_nth_eq)
  finally show ?thesis unfolding assignAll_labels(1) [OF assms] .
qed

lemma nth0_map_upt: "j < n \<Longrightarrow> nth0 (map f [0..<n]) j = f j"
  by (simp add: nth0_def)

lemma accumulate_fold:
  assumes "\<forall>i < length data. labels ! i < k"
  shows "m \<le> length data \<Longrightarrow>
    (case fold (accumulateStep dimn data labels) [0..<m] (replicate k 0, replicate k (replicate dimn 0))
     of (counts, totals) \<Rightarrow>
       length counts = k \<and> length totals = k \<and>
       (\<forall>c < k. counts ! c = length (filter (\<lambda>i. labels ! i = c) [0..<m]) \<and>
                 totals ! c = map (\<lambda>j. \<Sum>i\<leftarrow>filter (\<lambda>i. labels ! i = c) [0..<m]. nth0 (data ! i) j)
                                [0..<dimn]))"
proof (induction m)
  case 0
  show ?case by (auto simp: map_replicate_const)
next
  case (Suc m)
  obtain counts totals where acc:
    "fold (accumulateStep dimn data labels) [0..<m] (replicate k 0, replicate k (replicate dimn 0))
       = (counts, totals)"
    by (cases "fold (accumulateStep dimn data labels) [0..<m]
                 (replicate k 0, replicate k (replicate dimn 0))") auto
  from Suc acc have len: "length counts = k" "length totals = k"
    and IH: "\<And>c. c < k \<Longrightarrow> counts ! c = length (filter (\<lambda>i. labels ! i = c) [0..<m])"
      "\<And>c. c < k \<Longrightarrow> totals ! c =
          map (\<lambda>j. \<Sum>i\<leftarrow>filter (\<lambda>i. labels ! i = c) [0..<m]. nth0 (data ! i) j) [0..<dimn]"
    by simp_all
  let ?c = "labels ! m"
  have lc: "?c < k" using assms Suc.prems by simp
  let ?counts = "counts[?c := counts ! ?c + 1]"
  let ?totals = "totals[?c := map (\<lambda>j. nth0 (totals ! ?c) j + nth0 (data ! m) j) [0..<dimn]]"
  have step: "fold (accumulateStep dimn data labels) [0..<Suc m]
                (replicate k 0, replicate k (replicate dimn 0)) = (?counts, ?totals)"
    using acc by (simp add: accumulateStep_def Let_def)
  have tot: "map (\<lambda>j. nth0 (totals ! ?c) j + nth0 (data ! m) j) [0..<dimn] =
             map (\<lambda>j. \<Sum>i\<leftarrow>filter (\<lambda>i. labels ! i = ?c) [0..<Suc m]. nth0 (data ! i) j) [0..<dimn]"
    unfolding IH(2) [OF lc] by (rule map_cong) (simp_all add: nth0_map_upt)
  have "?counts ! c = length (filter (\<lambda>i. labels ! i = c) [0..<Suc m]) \<and>
        ?totals ! c = map (\<lambda>j. \<Sum>i\<leftarrow>filter (\<lambda>i. labels ! i = c) [0..<Suc m]. nth0 (data ! i) j)
                        [0..<dimn]" if c: "c < k" for c
  proof (cases "c = ?c")
    case True
    then show ?thesis using len lc tot IH(1) [OF lc] by simp
  next
    case False
    then show ?thesis using len c IH(1) [OF c] IH(2) [OF c] by simp
  qed
  then show ?case unfolding step using len by simp
qed

lemma recompute_props:
  assumes "\<forall>i < length data. labels ! i < k" "length labels = length data"
  shows "length (recompute dimn k data labels) = k"
    and "c < k \<Longrightarrow> members labels c \<noteq> [] \<Longrightarrow>
           recompute dimn k data labels ! c = meanOf dimn data (members labels c)"
    and "c < k \<Longrightarrow> members labels c = [] \<Longrightarrow>
           recompute dimn k data labels ! c = replicate dimn 0"
proof -
  obtain counts totals where acc:
    "fold (accumulateStep dimn data labels) [0..<length data]
        (replicate k 0, replicate k (replicate dimn 0)) = (counts, totals)"
    by (cases "fold (accumulateStep dimn data labels) [0..<length data]
                 (replicate k 0, replicate k (replicate dimn 0))") auto
  from accumulate_fold [OF assms(1) le_refl, of dimn] acc
  have len: "length counts = k" "length totals = k"
    and cnt: "\<And>c. c < k \<Longrightarrow> counts ! c = length (members labels c)"
    and tot: "\<And>c. c < k \<Longrightarrow> totals ! c =
          map (\<lambda>j. \<Sum>i\<leftarrow>members labels c. nth0 (data ! i) j) [0..<dimn]"
    by (simp_all add: members_def assms(2))
  have r: "recompute dimn k data labels =
             map (\<lambda>(n, s). if n = 0 then s else map (\<lambda>x. x / real n) s) (zip counts totals)"
    using acc by (simp add: recompute_def)
  show "length (recompute dimn k data labels) = k" using len by (simp add: r)
  show "recompute dimn k data labels ! c = meanOf dimn data (members labels c)"
    if "c < k" "members labels c \<noteq> []"
    using that len cnt [OF that(1)] tot [OF that(1)] by (simp add: r meanOf_def)
  show "recompute dimn k data labels ! c = replicate dimn 0"
    if "c < k" "members labels c = []"
    using that len cnt [OF that(1)] tot [OF that(1)] by (simp add: r map_replicate_const)
qed

lemma mulberry32_123456: "mulberry32 123456 = (1831689269, 1642107918)"
  by (simp add: mulberry32_def Let_def)

lemma mulberry32_second: "mulberry32 1831689269 = (3663255082, 3424218114)"
  by (simp add: mulberry32_def Let_def)

lemma mulberry32_third: "mulberry32 3663255082 = (1199853599, 4280064779)"
  by (simp add: mulberry32_def Let_def)

lemma mulberry32_fourth: "mulberry32 1199853599 = (3031419412, 687244953)"
  by (simp add: mulberry32_def Let_def)

lemma initCentroids_done:
  "\<not> length cs < min k (length data) \<Longrightarrow> initCentroids a used cs data k = Some cs"
  by (subst initCentroids.simps) auto

lemma initCentroids_retry:
  "length cs < min k (length data) \<Longrightarrow> mulberry32 a = (a', w) \<Longrightarrow>
   scale w (length data) \<in> used \<Longrightarrow>
   initCentroids a used cs data k = initCentroids a' used cs data k"
  by (subst initCentroids.simps) auto

lemma initCentroids_pick:
  "length cs < min k (length data) \<Longrightarrow> mulberry32 a = (a', w) \<Longrightarrow>
   scale w (length data) = idx \<Longrightarrow> idx \<notin> used \<Longrightarrow>
   initCentroids a used cs data k =
     initCentroids a' (insert idx used) (cs @ [data ! idx]) data k"
  by (subst initCentroids.simps) auto

lemma initCentroids_example: "initCentroids 123456 {} [] [[5], [5], [10]] 3 = Some [[5], [10], [5]]"
proof -
  let ?d = "[[5], [5], [10 :: real]]"
  have "initCentroids 123456 {} [] ?d 3 = initCentroids 1831689269 {1} [[5]] ?d 3"
    by (subst initCentroids_pick [OF _ mulberry32_123456, where idx = 1]) (simp_all add: scale_def)
  also have "\<dots> = initCentroids 3663255082 {2, 1} [[5], [10]] ?d 3"
    by (subst initCentroids_pick [OF _ mulberry32_second, where idx = 2]) (simp_all add: scale_def)
  also have "\<dots> = initCentroids 1199853599 {2, 1} [[5], [10]] ?d 3"
    by (subst initCentroids_retry [OF _ mulberry32_third]) (simp_all add: scale_def)
  also have "\<dots> = initCentroids 3031419412 {0, 2, 1} [[5], [10], [5]] ?d 3"
    by (subst initCentroids_pick [OF _ mulberry32_fourth, where idx = 0]) (simp_all add: scale_def)
  also have "\<dots> = Some [[5], [10], [5]]"
    by (rule initCentroids_done) simp
  finally show ?thesis .
qed



lemma kmeansLoop_example:
  "kmeansLoop 40 1 [[5], [5], [10]] [[5], [10], [5]] [0, 0, 0] = ([0, 0, 1], [[5], [10], [0]])"
  by code_simp

lemma assignAll_example:
  "assignAll 1 [[5], [10], [5]] [[5], [5], [10]] [0, 0, 0] = ([0, 0, 1], 1)"
  by code_simp

lemma recompute_example:
  "recompute 1 3 [[5], [5], [10]] [0, 0, 1] = [[5], [10], [0]]"
  by code_simp

text \<open>
  C1, as stated, fails where it says that the centroid of an empty cluster keeps its value.
  For the three one-dimensional points 5, 5, 10 and \<open>k = 3\<close> the initial centroids are
  5, 10, 5. The first round assigns the points to clusters 0, 0, 1 (one label changes), so the
  third cluster is empty; after the round its centroid is 0, not 5, and that is the centroid
  \<^verbatim>\<open>kmeans\<close> returns.
\<close>

theorem kmeans_empty_cluster_reset:
  "initCentroids 123456 {} [] [[5], [5], [10]] 3 = Some [[5], [10], [5]] \<and>
   assignAll 1 [[5], [10], [5]] [[5], [5], [10]] [0, 0, 0] = ([0, 0, 1], 1) \<and>
   members [0, 0, 1] 2 = [] \<and>
   recompute 1 3 [[5], [5], [10]] [0, 0, 1] ! 2 \<noteq> [[5], [10], [5]] ! 2 \<and>
   kmeans [[5], [5], [10]] 3 40 = Some ([0, 0, 1], [[5], [10], [0]])"
proof -
  have m: "members [0, 0, 1] 2 = []" by code_simp
  have ne: "recompute 1 3 [[5], [5], [10]] [0, 0, 1] ! 2 \<noteq> [[5], [10], [5]] ! 2"
    unfolding recompute_example by simp
  have "kmeans [[5], [5], [10]] 3 40 = Some ([0, 0, 1], [[5], [10], [0]])"
  proof -
    have e: "length ([[5], [5], [10 :: real]] ! 0) = 1" by simp
    have r: "replicate (length [[5], [5], [10 :: real]]) (0 :: nat) = [0, 0, 0]"
      by (simp add: numeral_3_eq_3)
    show ?thesis
      unfolding kmeans_def initCentroids_example e r
      by (simp only: list.simps if_False option.simps kmeansLoop_example)
  qed
  with initCentroids_example assignAll_example m ne show ?thesis by blast
qed

text \<open>
  C1, amended. One round of the loop, for centroids that are not empty and one label per
  point. The round changes no label exactly when its change counter is 0, and then the loop
  stops at once with the centroids it had. Otherwise it goes on with the recomputed
  centroids: the centroid of a cluster that has points is the mean of its points, and the
  centroid of a cluster without points is the zero vector.
\<close>

theorem kmeans_round:
  assumes "centroids \<noteq> []" and "length labels = length data"
  shows "(let (labels', changed) = assignAll dimn centroids data labels;
              centroids' = recompute dimn (length centroids) data labels'
          in (changed = 0 \<longleftrightarrow> labels' = labels) \<and>
             (changed = 0 \<longrightarrow>
                kmeansLoop (Suc n) dimn data centroids labels = (labels', centroids)) \<and>
             (changed \<noteq> 0 \<longrightarrow>
                kmeansLoop (Suc n) dimn data centroids labels =
                  kmeansLoop n dimn data centroids' labels' \<and>
                length centroids' = length centroids \<and>
                (\<forall>c < length centroids.
                   (members labels' c \<noteq> [] \<longrightarrow>
                      centroids' ! c = meanOf dimn data (members labels' c)) \<and>
                   (members labels' c = [] \<longrightarrow> centroids' ! c = replicate dimn 0))))"
proof -
  obtain labels' changed where a: "assignAll dimn centroids data labels = (labels', changed)"
    by (cases "assignAll dimn centroids data labels") auto
  have l': "labels' = map (nearest dimn centroids) data"
    using assignAll_labels(1) [OF assms(2), of dimn centroids] a by simp
  have in_range: "\<forall>i < length data. labels' ! i < length centroids"
    by (simp add: l' nearest_less [OF assms(1)])
  have len: "length labels' = length data" by (simp add: l')
  note rp = recompute_props [OF in_range len, where dimn = dimn]
  have 1: "changed = 0 \<longleftrightarrow> labels' = labels"
    using assignAll_unchanged [OF assms(2), of dimn centroids] a by simp
  have 2: "kmeansLoop (Suc n) dimn data centroids labels = (labels', centroids)" if "changed = 0"
    using that a by simp
  have 3: "kmeansLoop (Suc n) dimn data centroids labels =
             kmeansLoop n dimn data (recompute dimn (length centroids) data labels') labels'"
    if "changed \<noteq> 0"
    using that a by simp
  have 4: "\<forall>c < length centroids.
             (members labels' c \<noteq> [] \<longrightarrow>
                recompute dimn (length centroids) data labels' ! c =
                  meanOf dimn data (members labels' c)) \<and>
             (members labels' c = [] \<longrightarrow>
                recompute dimn (length centroids) data labels' ! c = replicate dimn 0)"
    using rp(2,3) by blast
  show ?thesis
    unfolding a Let_def prod.case
  proof (intro conjI impI)
    show "(changed = 0) = (labels' = labels)" by (rule 1)
    show "kmeansLoop (Suc n) dimn data centroids labels = (labels', centroids)"
      if "changed = 0" by (rule 2 [OF that])
    show "kmeansLoop (Suc n) dimn data centroids labels =
            kmeansLoop n dimn data (recompute dimn (length centroids) data labels') labels'"
      if "changed \<noteq> 0" by (rule 3 [OF that])
    show "length (recompute dimn (length centroids) data labels') = length centroids"
      by (rule rp(1))
    show "\<forall>c < length centroids.
             (members labels' c \<noteq> [] \<longrightarrow>
                recompute dimn (length centroids) data labels' ! c =
                  meanOf dimn data (members labels' c)) \<and>
             (members labels' c = [] \<longrightarrow>
                recompute dimn (length centroids) data labels' ! c = replicate dimn 0)"
      by (rule 4)
  qed
qed

theorem kmeans_round_witness:
  "[[5], [10], [5 :: real]] \<noteq> [] \<and> length [0, 0, 0 :: nat] = length [[5], [5], [10 :: real]] \<and>
   assignAll 1 [[5], [10], [5]] [[5], [5], [10]] [0, 0, 0] = ([0, 0, 1], 1) \<and>
   kmeansLoop (Suc 39) 1 [[5], [5], [10]] [[5], [10], [5]] [0, 0, 0] =
     kmeansLoop 39 1 [[5], [5], [10]]
       (recompute 1 (length [[5], [10], [5 :: real]]) [[5], [5], [10]] [0, 0, 1]) [0, 0, 1] \<and>
   length (recompute 1 (length [[5], [10], [5 :: real]]) [[5], [5], [10]] [0, 0, 1]) =
     length [[5], [10], [5 :: real]]"
proof -
  have h1: "[[5], [10], [5 :: real]] \<noteq> []" by simp
  have h2: "length [0, 0, 0 :: nat] = length [[5], [5], [10 :: real]]" by simp
  have c: "(1 :: nat) \<noteq> 0" by simp
  from kmeans_round [OF h1 h2, of 1 39] c h1 h2 assignAll_example show ?thesis
    unfolding assignAll_example Let_def prod.case by blast
qed

lemma fileName_inj:
  assumes "k < 100" "k' < 100" "fileName k = fileName k'"
  shows "k = k'"
proof -
  have d: "distinct ''0123456789''" by simp
  have l: "k div 10 < length ''0123456789''" "k' div 10 < length ''0123456789''"
    "k mod 10 < length ''0123456789''" "k' mod 10 < length ''0123456789''"
    using assms(1,2) by simp_all
  from assms(3) have "''0123456789'' ! (k div 10) = ''0123456789'' ! (k' div 10)"
    and "''0123456789'' ! (k mod 10) = ''0123456789'' ! (k' mod 10)"
    by (simp_all add: fileName_def)
  then have "k div 10 = k' div 10" "k mod 10 = k' mod 10"
    using nth_eq_iff_index_eq [OF d] l by blast+
  then show ?thesis by (metis div_mult_mod_eq)
qed

lemma numbered_key_inj:
  assumes "k < 100" "\<forall>j \<in> set ns. j < 100"
  shows "mkKey ''A'' (fileName k) \<in> set (map (\<lambda>j. mkKey ''A'' (fileName j)) ns) \<longleftrightarrow> k \<in> set ns"
  using assms fileName_inj by (auto simp: mkKey_def)

lemma drawIndex_less: "0 < n \<Longrightarrow> drawIndex G n i a < n"
  by (simp add: drawIndex_def)

lemma draw_numbered:
  assumes "0 < n"
  shows "draw G [''A''] [''A'' \<mapsto> numberedFiles n] i a = Some (''A'', fileName (drawIndex G n i a))"
proof -
  have "numberedFiles n \<noteq> []" using assms by (simp add: numberedFiles_def)
  moreover have "numberedFiles n ! drawIndex G n i a = fileName (drawIndex G n i a)"
    using drawIndex_less [OF assms] by (simp add: numberedFiles_def)
  ultimately show ?thesis
    using scale_one
    by (simp add: draw_def Let_def split_beta pickFile_def drawIndex_def numberedFiles_def)
qed


lemma idxLoop_stop:
  "\<not> (length ns < limit \<and> attempts < limit * 10) \<Longrightarrow>
   idxLoop G n offset limit attempts ns = ns"
  by (subst idxLoop.simps) auto

lemma idxLoop_retry:
  "length ns < limit \<Longrightarrow> attempts < limit * 10 \<Longrightarrow>
   drawIndex G n (offset + length ns) (Suc attempts) \<in> set (sliceLast 50 ns) \<Longrightarrow>
   idxLoop G n offset limit attempts ns = idxLoop G n offset limit (Suc attempts) ns"
  by (subst idxLoop.simps) (simp add: Let_def)

lemma idxLoop_accept:
  "length ns < limit \<Longrightarrow> attempts < limit * 10 \<Longrightarrow>
   drawIndex G n (offset + length ns) (Suc attempts) \<notin> set (sliceLast 50 ns) \<Longrightarrow>
   idxLoop G n offset limit attempts ns =
     idxLoop G n offset limit (Suc attempts)
       (ns @ [drawIndex G n (offset + length ns) (Suc attempts)])"
  by (subst idxLoop.simps) (simp add: Let_def)

lemma sliceLast_map: "sliceLast m (map f xs) = map f (sliceLast m xs)"
  by (simp add: sliceLast_def drop_map)

lemma sampleLoop_idxLoop:
  "0 < n \<Longrightarrow> n \<le> 100 \<Longrightarrow> windowInv st \<Longrightarrow>
   recentQueue st = sliceLast RECENT_LIMIT (map (\<lambda>j. mkKey ''A'' (fileName j)) ns) \<Longrightarrow>
   \<forall>j \<in> set ns. j < n \<Longrightarrow>
   map postKey out = map (\<lambda>j. mkKey ''A'' (fileName j)) ns \<Longrightarrow>
   map postKey (fst (snd (sampleLoop G [''A''] [''A'' \<mapsto> numberedFiles n] offset limit
                            attempts out st))) =
     map (\<lambda>j. mkKey ''A'' (fileName j)) (idxLoop G n offset limit attempts ns)"
proof (induction G n offset limit attempts ns arbitrary: out st rule: idxLoop.induct)
  case (1 G n offset limit attempts ns)
  let ?key = "\<lambda>j. mkKey ''A'' (fileName j)"
  let ?fm = "[''A'' \<mapsto> numberedFiles n]"
  note w = \<open>windowInv st\<close> and q = \<open>recentQueue st = sliceLast RECENT_LIMIT (map ?key ns)\<close>
    and b = \<open>\<forall>j \<in> set ns. j < n\<close> and o = \<open>map postKey out = map ?key ns\<close>
  have n: "0 < n" "n \<le> 100" by fact+
  have len: "length out = length ns" using o by (metis length_map)
  show ?case
  proof (cases "length ns < limit \<and> attempts < limit * 10")
    case False
    then show ?thesis using o len by (simp add: sampleLoop_stop idxLoop_stop)
  next
    case True
    then have c: "length ns < limit" "attempts < limit * 10" by simp_all
    let ?k = "drawIndex G n (offset + length ns) (Suc attempts)"
    have kn: "?k < n" by (rule drawIndex_less [OF n(1)])
    have d: "draw G [''A''] ?fm (offset + length out) (Suc attempts) = Some (''A'', fileName ?k)"
      unfolding len by (rule draw_numbered [OF n(1)])
    have k1: "?k = drawIndex G n (offset + length ns) (attempts + 1)" by simp
    have rs: "recentSet st = set (map ?key (sliceLast 50 ns))"
      using w q by (simp add: windowInv_def sliceLast_map RECENT_LIMIT_def)
    have b': "\<forall>j \<in> set (sliceLast 50 ns). j < 100"
      using b n(2) by (fastforce simp: sliceLast_def dest: in_set_dropD)
    have mem: "?key ?k \<in> recentSet st \<longleftrightarrow> ?k \<in> set (sliceLast 50 ns)"
      unfolding rs using numbered_key_inj [of ?k "sliceLast 50 ns"] kn n(2) b' by simp
    have step: "sampleLoop G [''A''] ?fm offset limit attempts out st =
        (if ?key ?k \<in> recentSet st
         then sampleLoop G [''A''] ?fm offset limit (Suc attempts) out st
         else sampleLoop G [''A''] ?fm offset limit (Suc attempts)
                (out @ [mkPost ''A'' (fileName ?k)]) (pushRecent (?key ?k) st))"
      using c len d by (simp add: sampleLoop_step)
    show ?thesis
    proof (cases "?k \<in> set (sliceLast 50 ns)")
      case in_window: True
      have "map postKey (fst (snd (sampleLoop G [''A''] ?fm offset limit (attempts + 1) out st))) =
              map ?key (idxLoop G n offset limit (attempts + 1) ns)"
        using in_window by (intro "1.IH"(1) [OF True k1 _ n w q b o]) simp
      then have IH: "map postKey (fst (snd (sampleLoop G [''A''] ?fm offset limit (Suc attempts) out st))) =
              map ?key (idxLoop G n offset limit (Suc attempts) ns)"
        by simp
      have e1: "sampleLoop G [''A''] ?fm offset limit attempts out st =
          sampleLoop G [''A''] ?fm offset limit (Suc attempts) out st"
        using step mem in_window by (simp only: if_True)
      have e2: "idxLoop G n offset limit attempts ns = idxLoop G n offset limit (Suc attempts) ns"
        by (rule idxLoop_retry [OF c in_window])
      show ?thesis by (simp only: e1 e2 IH)
    next
      case False
      have nk: "?key ?k \<notin> recentSet st" using mem False by simp
      have w': "windowInv (pushRecent (?key ?k) st)" by (rule pushRecent_inv [OF w nk])
      have q': "recentQueue (pushRecent (?key ?k) st) =
                  sliceLast RECENT_LIMIT (map ?key (ns @ [?k]))"
        using q by (simp add: pushRecent_queue sliceLast_snoc)
      have b2: "\<forall>j \<in> set (ns @ [?k]). j < n" using b kn by simp
      have o': "map postKey (out @ [mkPost ''A'' (fileName ?k)]) = map ?key (ns @ [?k])"
        using o by simp
      have "map postKey (fst (snd (sampleLoop G [''A''] ?fm offset limit (attempts + 1)
                (out @ [mkPost ''A'' (fileName ?k)]) (pushRecent (?key ?k) st)))) =
              map ?key (idxLoop G n offset limit (attempts + 1) (ns @ [?k]))"
        using False by (intro "1.IH"(2) [OF True k1 _ n w' q' b2 o']) simp
      then have IH: "map postKey (fst (snd (sampleLoop G [''A''] ?fm offset limit (Suc attempts)
                (out @ [mkPost ''A'' (fileName ?k)]) (pushRecent (?key ?k) st)))) =
              map ?key (idxLoop G n offset limit (Suc attempts) (ns @ [?k]))"
        by simp
      have e1: "sampleLoop G [''A''] ?fm offset limit attempts out st =
          sampleLoop G [''A''] ?fm offset limit (Suc attempts)
            (out @ [mkPost ''A'' (fileName ?k)]) (pushRecent (?key ?k) st)"
        using step nk by (simp only: if_False)
      have e2: "idxLoop G n offset limit attempts ns =
          idxLoop G n offset limit (Suc attempts) (ns @ [?k])"
        by (rule idxLoop_accept [OF c False])
      show ?thesis by (simp only: e1 e2 IH)
    qed
  qed
qed


lemma idxLoop_example:
  "idxLoop 1790 85 0 53 0 [] =
     [1, 48, 46, 66, 44, 11, 47, 13, 17, 61, 25, 10, 4, 73, 43, 70, 29, 9, 75, 39, 36, 28, 31, 51,
      54, 5, 34, 41, 0, 64, 76, 57, 50, 40, 7, 14, 18, 19, 62, 2, 56, 6, 68, 15, 24, 26, 21, 49, 3,
      69, 83, 52, 48]"
  by (simp add: idxLoop.simps drawIndex_def mulberry32_def attemptSeed_def Let_def scale_def
        sliceLast_def)

lemma sample_repeats_example:
  "\<not> distinct (map postKey (fst (generatePostsRange 1790 [''A''] [''A'' \<mapsto> numberedFiles 85]
                                     0 53 emptyRecent)))"
proof -
  let ?key = "\<lambda>j. mkKey ''A'' (fileName j)"
  have q: "recentQueue emptyRecent = sliceLast RECENT_LIMIT (map ?key [])"
    by (simp add: emptyRecent_def sliceLast_def)
  have "map postKey (fst (snd (sampleLoop 1790 [''A''] [''A'' \<mapsto> numberedFiles 85] 0 53 0 []
                                 emptyRecent))) =
          map ?key (idxLoop 1790 85 0 53 0 [])"
    by (rule sampleLoop_idxLoop [OF _ _ windowInv_empty q]) simp_all
  moreover have "\<not> distinct (idxLoop 1790 85 0 53 0 [])"
    unfolding idxLoop_example by simp
  ultimately have "\<not> distinct (map postKey (fst (snd (sampleLoop 1790 [''A'']
                      [''A'' \<mapsto> numberedFiles 85] 0 53 0 [] emptyRecent))))"
    by (simp add: distinct_map)
  then show ?thesis by (simp add: generatePostsRange_def split_beta)
qed

text \<open>
  C10. From a window that satisfies the invariant (every reachable one does), a call of
  \<^verbatim>\<open>generatePostsRange\<close> with \<open>limit \<le> 50\<close> returns posts with pairwise different keys.
  The reason is the second conjunct: after a call the queue is the last 50 entries of the old
  queue followed by the keys emitted, in order, so the keys of one call stay in the window as
  long as there are at most 50 of them, and only that long. The third conjunct is a call with
  \<open>limit = 53\<close> that returns a key twice: with seed 1790, one category of 85 files and an empty
  window, the file emitted second has left the window when the 53rd post is drawn, and it is
  drawn again.
\<close>

theorem sample_keys_distinct:
  assumes "windowInv st"
  shows "(limit \<le> 50 \<longrightarrow>
            distinct (map postKey (fst (generatePostsRange G categories fileMap offset limit st)))) \<and>
         recentQueue (snd (generatePostsRange G categories fileMap offset limit st)) =
           sliceLast 50 (recentQueue st @
             map postKey (fst (generatePostsRange G categories fileMap offset limit st))) \<and>
         \<not> distinct (map postKey (fst (generatePostsRange 1790 [''A'']
                         [''A'' \<mapsto> numberedFiles 85] 0 53 emptyRecent)))"
  using sample_keys_distinct_upto [OF assms] sample_repeats_example by blast

theorem sample_keys_distinct_witness:
  "windowInv emptyRecent \<and> (2::nat) \<le> 50 \<and>
   distinct (map postKey (fst (generatePostsRange 7 [''A'', ''B'']
      [''A'' \<mapsto> [''a.mp4'', ''b.mp4''], ''B'' \<mapsto> [''c.mp4'']] 0 2 emptyRecent)))"
  using sample_keys_distinct [where st = emptyRecent and limit = 2 and G = 7
      and categories = "[''A'', ''B'']"
      and fileMap = "[''A'' \<mapsto> [''a.mp4'', ''b.mp4''], ''B'' \<mapsto> [''c.mp4'']]" and offset = 0]
  by (simp add: windowInv_empty)

end
